theory Spec2Isabelle
  imports Main "HOL-Library.Sublist"
begin

section \<open>Python strings\<close>

text \<open>
  A Python \<open>str\<close> is a sequence of Unicode code points, so a string is a list of natural
  numbers here, not a list of 8-bit characters. \<open>ustr\<close> turns an ASCII literal of the
  source into such a list.
\<close>

type_synonym codepoint = nat
type_synonym str = "codepoint list"

definition ustr :: "string \<Rightarrow> str" where
  "ustr s = map of_char s"

definition LF :: codepoint where
  "LF = 10"

definition CR :: codepoint where
  "CR = 13"

definition hyphen :: codepoint where
  "hyphen = 45"

text \<open>
  \<open>str.isspace\<close> for one code point, which is what \<open>strip\<close> and \<open>rstrip\<close> without
  an argument remove: the ASCII controls 9 to 13 and 28 to 31, the space, and the Unicode
  white space U+0085, U+00A0, U+1680, U+2000 to U+200A, U+2028, U+2029, U+202F, U+205F,
  U+3000.
\<close>

definition isspace :: "codepoint \<Rightarrow> bool" where
  "isspace c \<longleftrightarrow>
     (9 \<le> c \<and> c \<le> 13) \<or> (28 \<le> c \<and> c \<le> 32) \<or> c = 133 \<or> c = 160 \<or> c = 5760 \<or>
     (8192 \<le> c \<and> c \<le> 8202) \<or> c = 8232 \<or> c = 8233 \<or> c = 8239 \<or> c = 8287 \<or>
     c = 12288"

definition lstrip :: "str \<Rightarrow> str" where
  "lstrip s = dropWhile isspace s"

definition rstrip :: "str \<Rightarrow> str" where
  "rstrip s = rev (dropWhile isspace (rev s))"

definition strip :: "str \<Rightarrow> str" where
  "strip s = rstrip (lstrip s)"

definition startswith :: "str \<Rightarrow> str \<Rightarrow> bool" where
  "startswith s p \<longleftrightarrow> take (length p) s = p"

text \<open>\<open>contains sub s\<close> is Python's \<open>sub in s\<close>.\<close>

fun contains :: "str \<Rightarrow> str \<Rightarrow> bool" where
  "contains sub [] \<longleftrightarrow> sub = []"
| "contains sub (c # cs) \<longleftrightarrow> startswith (c # cs) sub \<or> contains sub cs"

datatype error = OSError | UnicodeDecodeError | UnicodeEncodeError | ValueError | IndexError

text \<open>
  \<open>s.split(sep)\<close>: the pieces between the occurrences of \<open>sep\<close>, found from the left and
  not overlapping. An empty separator raises \<open>ValueError\<close>. \<open>split_from\<close> carries the piece
  read so far; where the separator starts at \<open>c\<close>, the scan goes on behind it, that is
  \<open>length sep - 1\<close> characters into \<open>cs\<close>.
\<close>

fun split_from :: "str \<Rightarrow> str \<Rightarrow> str \<Rightarrow> str list" where
  "split_from sep cur [] = [cur]"
| "split_from sep cur (c # cs) =
     (if startswith (c # cs) sep then cur # split_from sep [] (drop (length sep - 1) cs)
      else split_from sep (cur @ [c]) cs)"

definition split :: "str \<Rightarrow> str \<Rightarrow> error + str list" where
  "split s sep = (if sep = [] then Inl ValueError else Inr (split_from sep [] s))"

text \<open>\<open>xs[0]\<close>, which raises \<open>IndexError\<close> on an empty list.\<close>

definition item0 :: "'a list \<Rightarrow> error + 'a" where
  "item0 xs = (case xs of [] \<Rightarrow> Inl IndexError | x # _ \<Rightarrow> Inr x)"

text \<open>\<open>sep.join(xs)\<close>.\<close>

fun join :: "str \<Rightarrow> str list \<Rightarrow> str" where
  "join sep [] = []"
| "join sep [x] = x"
| "join sep (x # y # ys) = x @ sep @ join sep (y # ys)"

section \<open>Reading a text file\<close>

text \<open>
  \<open>open(input_file, "r", encoding="utf-8")\<close> reads with universal newlines: \<open>\r\n\<close> and a
  lone \<open>\r\<close> both arrive as \<open>\n\<close>. \<open>readlines\<close> then cuts the text after every \<open>\n\<close>; each
  line keeps its \<open>\n\<close>, and a last line without one is returned as it is.
\<close>

fun universal_newlines :: "str \<Rightarrow> str" where
  "universal_newlines [] = []"
| "universal_newlines [c] = [if c = CR then LF else c]"
| "universal_newlines (c # d # cs) =
     (if c = CR \<and> d = LF then LF # universal_newlines cs
      else if c = CR then LF # universal_newlines (d # cs)
      else c # universal_newlines (d # cs))"

fun readlines_from :: "str \<Rightarrow> str \<Rightarrow> str list" where
  "readlines_from cur [] = (if cur = [] then [] else [cur])"
| "readlines_from cur (c # cs) =
     (if c = LF then (cur @ [c]) # readlines_from [] cs
      else readlines_from (cur @ [c]) cs)"

definition readlines :: "str \<Rightarrow> str list" where
  "readlines content = readlines_from [] (universal_newlines content)"

section \<open>clean_sql\<close>

definition ignore_keywords :: "str list" where
  "ignore_keywords =
     [ustr ''OWNER TO'',
      ustr ''ACL'',
      ustr ''GRANT ALL'',
      ustr ''REVOKE ALL'',
      ustr ''SET default_table_access_method'',
      ustr ''SELECT pg_catalog.set_config('' @ [39] @ ustr ''search_path'' @ [39],
      [92] @ ustr ''restrict'']"

definition dashes :: str where
  "dashes = [hyphen, hyphen]"

text \<open>
  The body of the loop for one line: \<open>Inr None\<close> is \<open>continue\<close>, \<open>Inr (Some l)\<close> is
  \<open>cleaned_lines.append(l)\<close>, \<open>Inl e\<close> is an exception raised by the body.
\<close>

definition process_line :: "str \<Rightarrow> error + str option" where
  "process_line line =
     (let raw_line = strip line in
      if startswith raw_line dashes \<or> raw_line = [] then Inr None
      else if list_ex (\<lambda>kw. contains kw raw_line) ignore_keywords then Inr None
      else if contains dashes line then
        (case split line dashes of
           Inl e \<Rightarrow> Inl e
         | Inr pieces \<Rightarrow>
             (case item0 pieces of
                Inl e \<Rightarrow> Inl e
              | Inr piece \<Rightarrow>
                  (let line' = rstrip piece in
                   if strip line' = [] then Inr None
                   else Inr (Some (rstrip line')))))
      else Inr (Some (rstrip line)))"

fun clean_loop :: "str list \<Rightarrow> str list \<Rightarrow> error + str list" where
  "clean_loop cleaned_lines [] = Inr cleaned_lines"
| "clean_loop cleaned_lines (line # lines) =
     (case process_line line of
        Inl e \<Rightarrow> Inl e
      | Inr None \<Rightarrow> clean_loop cleaned_lines lines
      | Inr (Some l) \<Rightarrow> clean_loop (cleaned_lines @ [l]) lines)"

definition clean_lines :: "str list \<Rightarrow> error + str list" where
  "clean_lines lines = clean_loop [] lines"

text \<open>
  The text that \<open>clean_sql\<close> writes for an input file holding \<open>content\<close>: the file is read
  into lines, the loop runs, and the lines kept are joined by \<open>\n\<close>.
\<close>

definition clean_text :: "str \<Rightarrow> error + str" where
  "clean_text content =
     (case clean_lines (readlines content) of
        Inl e \<Rightarrow> Inl e
      | Inr cleaned_lines \<Rightarrow> Inr (join [LF] cleaned_lines))"

text \<open>
  The environment of a run. Each effect of \<open>clean_sql\<close> either succeeds or raises, and
  the environment says which:
  \<^item> \<open>files w p\<close> is what opening \<open>p\<close> and reading it as UTF-8 text gives: \<open>Inr content\<close>,
    or \<open>Inl e\<close> when that raises \<open>e\<close> (\<open>OSError\<close> for a missing or unreadable file,
    \<open>UnicodeDecodeError\<close> for bytes that are not UTF-8);
  \<^item> \<open>write_error w p t\<close> is the exception that creating or truncating \<open>p\<close> and writing
    \<open>t\<close> to it raises, \<open>None\<close> when it succeeds;
  \<^item> \<open>print_error w msg\<close> is the exception that printing \<open>msg\<close> to standard output raises
    (\<open>UnicodeEncodeError\<close> when the encoding of standard output has no bytes for a
    character of \<open>msg\<close>, \<open>OSError\<close> for a broken pipe), \<open>None\<close> when it succeeds;
  \<^item> \<open>stdout w\<close> holds the lines printed so far.
  File contents are the text as Python sees it, with \<open>\n\<close> written as it is. When an
  exception is raised the model keeps the exception only.
\<close>

record world =
  files :: "str \<Rightarrow> error + str"
  write_error :: "str \<Rightarrow> str \<Rightarrow> error option"
  print_error :: "str \<Rightarrow> error option"
  stdout :: "str list"

definition print :: "str \<Rightarrow> world \<Rightarrow> error + world" where
  "print msg w =
     (case print_error w msg of
        Some e \<Rightarrow> Inl e
      | None \<Rightarrow> Inr (w\<lparr>stdout := stdout w @ [msg]\<rparr>))"

text \<open>
  \<open>open\<close> raises \<open>ValueError\<close> for a path that holds a NUL character, before it asks the
  operating system. \<open>open_read\<close> is \<open>open(path, "r", encoding="utf-8")\<close> with
  \<open>f.readlines()\<close>, as text; \<open>open_write\<close> is \<open>open(path, "w", encoding="utf-8")\<close> with
  \<open>f.write(t)\<close>.
\<close>

definition open_read :: "world \<Rightarrow> str \<Rightarrow> error + str" where
  "open_read w path = (if 0 \<in> set path then Inl ValueError else files w path)"

definition open_write :: "world \<Rightarrow> str \<Rightarrow> str \<Rightarrow> error + world" where
  "open_write w path t =
     (if 0 \<in> set path then Inl ValueError
      else case write_error w path t of
             Some e \<Rightarrow> Inl e
           | None \<Rightarrow> Inr (w\<lparr>files := (files w)(path := Inr t)\<rparr>))"

definition cleaning_message :: "str \<Rightarrow> str \<Rightarrow> str" where
  "cleaning_message input_file output_file =
     ustr ''Cleaning '' @ input_file @ ustr '' -> '' @ output_file @ ustr ''...''"

definition saved_message :: "str \<Rightarrow> str" where
  "saved_message output_file = ustr ''Cleaned SQL saved to '' @ output_file"

definition clean_sql :: "str \<Rightarrow> str \<Rightarrow> world \<Rightarrow> error + world" where
  "clean_sql input_file output_file w =
     (case print (cleaning_message input_file output_file) w of
        Inl e \<Rightarrow> Inl e
      | Inr w1 \<Rightarrow>
          (case open_read w1 input_file of
             Inl e \<Rightarrow> Inl e
           | Inr content \<Rightarrow>
               (case clean_text content of
                  Inl e \<Rightarrow> Inl e
                | Inr out \<Rightarrow>
                    (case open_write w1 output_file out of
                       Inl e \<Rightarrow> Inl e
                     | Inr w2 \<Rightarrow> print (saved_message output_file) w2))))"

text \<open>
  An environment to run the model in. Standard output is UTF-8 with the error handler
  \<open>strict\<close>, Python's default: it has no bytes for a surrogate code point (U+D800 to
  U+DFFF), and \<open>print\<close> raises \<open>UnicodeEncodeError\<close> on one. The file system of
  \<open>one_file path content\<close> holds one file, which can be read and not written; every
  other path can be created and written, and is missing until then.
\<close>

definition utf8_strict :: "str \<Rightarrow> error option" where
  "utf8_strict msg =
     (if list_ex (\<lambda>c. 55296 \<le> c \<and> c \<le> 57343) msg then Some UnicodeEncodeError else None)"

definition one_file :: "str \<Rightarrow> str \<Rightarrow> world" where
  "one_file path content =
     \<lparr>files = (\<lambda>p. if p = path then Inr content else Inl OSError),
      write_error = (\<lambda>p t. if p = path then Some OSError else None),
      print_error = utf8_strict,
      stdout = []\<rparr>"

section \<open>Facts about the string operations\<close>

lemma startswith_prefix: "startswith s p \<longleftrightarrow> prefix p s"
  unfolding startswith_def prefix_def
  by (metis append_eq_conv_conj)

lemma contains_sublist: "contains sub s \<longleftrightarrow> sublist sub s"
  by (induction s) (simp_all add: sublist_Cons_right startswith_prefix)

lemma lstrip_decomp: "s = takeWhile isspace s @ lstrip s"
  by (simp add: lstrip_def)

lemma rstrip_decomp: "s = rstrip s @ rev (takeWhile isspace (rev s))"
proof -
  have "rstrip s @ rev (takeWhile isspace (rev s))
        = rev (takeWhile isspace (rev s) @ dropWhile isspace (rev s))"
    unfolding rstrip_def by (simp only: rev_append)
  also have "\<dots> = s" by simp
  finally show ?thesis by simp
qed

lemma rstrip_prefix: "prefix (rstrip s) s"
  by (metis rstrip_decomp prefixI)

lemma lstrip_suffix: "suffix (lstrip s) s"
  by (metis lstrip_decomp suffixI)

lemma lstrip_Nil_iff: "lstrip s = [] \<longleftrightarrow> (\<forall>c\<in>set s. isspace c)"
  by (simp add: lstrip_def)

lemma rstrip_Nil_iff: "rstrip s = [] \<longleftrightarrow> (\<forall>c\<in>set s. isspace c)"
  by (simp add: rstrip_def)

lemma lstrip_hd: "lstrip s \<noteq> [] \<Longrightarrow> \<not> isspace (hd (lstrip s))"
  unfolding lstrip_def by (rule hd_dropWhile)

lemma rstrip_last: "rstrip s \<noteq> [] \<Longrightarrow> \<not> isspace (last (rstrip s))"
  unfolding rstrip_def by (simp add: last_rev hd_dropWhile)

lemma rstrip_keep: "s \<noteq> [] \<Longrightarrow> \<not> isspace (last s) \<Longrightarrow> rstrip s = s"
  unfolding rstrip_def by (cases s rule: rev_cases) simp_all

lemma rstrip_idem: "rstrip (rstrip s) = rstrip s"
  by (cases "rstrip s = []") (simp_all add: rstrip_keep rstrip_last rstrip_def)

lemma rstrip_append_keep:
  "a \<noteq> [] \<Longrightarrow> \<not> isspace (last a) \<Longrightarrow> rstrip (a @ b) = a @ rstrip b"
  unfolding rstrip_def
  by (cases a rule: rev_cases) (auto simp: dropWhile_append)

lemma lstrip_append_keep:
  "b \<noteq> [] \<Longrightarrow> \<not> isspace (hd b) \<Longrightarrow> lstrip (a @ b) = lstrip a @ b"
  unfolding lstrip_def
  by (cases b) (auto simp: dropWhile_append)

lemma rstrip_append_space:
  "\<forall>c\<in>set b. isspace c \<Longrightarrow> rstrip (a @ b) = rstrip a"
  unfolding rstrip_def by (simp add: dropWhile_append)

lemma strip_Nil_iff: "strip s = [] \<longleftrightarrow> (\<forall>c\<in>set s. isspace c)"
proof
  assume "strip s = []"
  then have "\<forall>c\<in>set (lstrip s). isspace c"
    by (simp add: strip_def rstrip_Nil_iff)
  then show "\<forall>c\<in>set s. isspace c"
    by (metis lstrip_Nil_iff lstrip_hd hd_in_set)
next
  assume "\<forall>c\<in>set s. isspace c"
  then show "strip s = []"
    by (simp add: strip_def lstrip_Nil_iff[THEN iffD2] rstrip_def)
qed

lemma strip_sublist: "sublist (strip s) s"
  unfolding strip_def
  by (meson lstrip_suffix rstrip_prefix prefix_imp_sublist suffix_imp_sublist sublist_order.order_trans)

lemma sublist_lstrip:
  assumes "sublist sub s" "sub \<noteq> []" "\<not> isspace (hd sub)"
  shows "sublist sub (lstrip s)"
proof -
  from assms(1) obtain ps ss where s: "s = ps @ sub @ ss" by (auto simp: sublist_def)
  have "sub @ ss \<noteq> []" "\<not> isspace (hd (sub @ ss))" using assms by simp_all
  then have "lstrip (ps @ sub @ ss) = lstrip ps @ sub @ ss"
    by (rule lstrip_append_keep)
  then show ?thesis unfolding s by simp
qed

lemma sublist_rstrip:
  assumes "sublist sub s" "sub \<noteq> []" "\<not> isspace (last sub)"
  shows "sublist sub (rstrip s)"
proof -
  from assms(1) obtain ps ss where s: "s = ps @ sub @ ss" by (auto simp: sublist_def)
  have "ps @ sub \<noteq> []" "\<not> isspace (last (ps @ sub))" using assms by simp_all
  then have "rstrip ((ps @ sub) @ ss) = (ps @ sub) @ rstrip ss"
    by (rule rstrip_append_keep)
  then show ?thesis unfolding s by (metis append.assoc sublist_appendI)
qed

lemma sublist_strip:
  "sublist sub s \<Longrightarrow> sub \<noteq> [] \<Longrightarrow> \<not> isspace (hd sub) \<Longrightarrow> \<not> isspace (last sub)
   \<Longrightarrow> sublist sub (strip s)"
  unfolding strip_def by (intro sublist_rstrip sublist_lstrip)

lemma not_isspace_hyphen: "\<not> isspace hyphen"
  by (simp add: isspace_def hyphen_def)

lemma isspace_LF: "isspace LF"
  by (simp add: isspace_def LF_def)

lemma dashes_ends: "dashes \<noteq> []" "\<not> isspace (hd dashes)" "\<not> isspace (last dashes)"
  by (simp_all add: dashes_def not_isspace_hyphen)

lemma ignore_keywords_ends:
  "kw \<in> set ignore_keywords \<Longrightarrow> kw \<noteq> [] \<and> \<not> isspace (hd kw) \<and> \<not> isspace (last kw)"
  by (auto simp: ignore_keywords_def ustr_def isspace_def)

lemma split_from_not_Nil: "split_from sep cur s \<noteq> []"
  by (induction sep cur s rule: split_from.induct) simp_all

lemma not_sublist_butlast: "sep \<noteq> [] \<Longrightarrow> \<not> sublist sep (butlast sep)"
  by (metis sublist_length_le length_butlast diff_less length_greater_0_conv
        less_numeral_extra(1) not_le)

lemma split_from_first:
  assumes "sublist sep s" "sep \<noteq> []"
  shows "\<exists>p rest more. split_from sep cur s = (cur @ p) # more \<and> s = p @ sep @ rest \<and>
           \<not> sublist sep (p @ butlast sep)"
  using assms
proof (induction s arbitrary: cur)
  case Nil
  then show ?case by simp
next
  case (Cons c cs)
  show ?case
  proof (cases "prefix sep (c # cs)")
    case True
    then obtain rest where "c # cs = sep @ rest" by (auto simp: prefix_def)
    moreover have "split_from sep cur (c # cs)
                   = (cur @ []) # split_from sep [] (drop (length sep - 1) cs)"
      using True by (simp add: startswith_prefix)
    moreover have "\<not> sublist sep ([] @ butlast sep)"
      using Cons.prems(2) by (simp add: not_sublist_butlast)
    ultimately show ?thesis by (metis append_Nil)
  next
    case False
    with Cons.prems have "sublist sep cs" by (simp add: sublist_Cons_right)
    from Cons.IH[OF this Cons.prems(2), of "cur @ [c]"]
    obtain p rest more where
      sp: "split_from sep (cur @ [c]) cs = ((cur @ [c]) @ p) # more"
      and cs: "cs = p @ sep @ rest"
      and nf: "\<not> sublist sep (p @ butlast sep)"
      by blast
    have "prefix (c # p @ butlast sep) (c # cs)"
      unfolding cs using Cons.prems(2)
      by (metis append_butlast_last_id append.assoc prefix_Cons prefixI same_prefix_prefix)
    with False have "\<not> prefix sep (c # p @ butlast sep)"
      using prefix_order.order_trans by blast
    with nf have "\<not> sublist sep ((c # p) @ butlast sep)"
      by (simp add: sublist_Cons_right)
    moreover have "split_from sep cur (c # cs) = (cur @ c # p) # more"
      using False sp by (simp add: startswith_prefix)
    moreover have "c # cs = (c # p) @ sep @ rest" using cs by simp
    ultimately show ?thesis by blast
  qed
qed

lemma split_total: "split l dashes = Inr (split_from dashes [] l)"
  by (simp add: split_def dashes_def)

lemma item0_split_from:
  "item0 (split_from sep cur s) = Inr (hd (split_from sep cur s))"
  using split_from_not_Nil[of sep cur s]
  by (cases "split_from sep cur s") (simp_all add: item0_def)

lemma strip_rstrip_Nil_iff: "strip (rstrip s) = [] \<longleftrightarrow> (\<forall>c\<in>set s. isspace c)"
  by (metis strip_Nil_iff rstrip_Nil_iff rstrip_idem)

lemma process_line_eq:
  "process_line l = Inr
     (if startswith (strip l) dashes \<or> strip l = [] then None
      else if \<exists>kw\<in>set ignore_keywords. sublist kw (strip l) then None
      else if sublist dashes l then
        (if \<forall>c\<in>set (hd (split_from dashes [] l)). isspace c then None
         else Some (rstrip (hd (split_from dashes [] l))))
      else Some (rstrip l))"
  unfolding process_line_def Let_def
  by (simp add: split_total item0_split_from list_ex_iff contains_sublist
        strip_rstrip_Nil_iff rstrip_idem)

lemma first_piece:
  assumes "sublist dashes l"
  shows "\<exists>rest. l = hd (split_from dashes [] l) @ dashes @ rest \<and>
           \<not> sublist dashes (hd (split_from dashes [] l) @ [hyphen])"
proof -
  from split_from_first[OF assms dashes_ends(1), of "[]"]
  obtain p rest more where "split_from dashes [] l = p # more" "l = p @ dashes @ rest"
    "\<not> sublist dashes (p @ butlast dashes)"
    by auto
  then show ?thesis by (auto simp: dashes_def)
qed

lemma spaces_before_dashes:
  assumes "l = p @ dashes @ rest" "\<forall>c\<in>set p. isspace c"
  shows "startswith (strip l) dashes"
proof -
  have "lstrip (p @ (dashes @ rest)) = lstrip p @ dashes @ rest"
    by (rule lstrip_append_keep) (simp_all add: dashes_def not_isspace_hyphen)
  moreover have "lstrip p = []" using assms(2) by (simp add: lstrip_Nil_iff)
  ultimately have "lstrip l = dashes @ rest" using assms(1) by simp
  moreover have "rstrip (dashes @ rest) = dashes @ rstrip rest"
    by (rule rstrip_append_keep) (simp_all add: dashes_ends)
  ultimately show ?thesis by (simp add: strip_def startswith_prefix)
qed

lemma process_line_total: "\<exists>r. process_line l = Inr r"
  using process_line_eq by blast

lemma process_line_Some:
  assumes "process_line l = Inr (Some x)"
  shows "x \<noteq> []" and "\<not> isspace (last x)" and "prefix x l" and "rstrip x = x"
    and "\<not> sublist dashes x" and "\<forall>kw\<in>set ignore_keywords. \<not> sublist kw x"
proof -
  let ?p = "hd (split_from dashes [] l)"
  have ne: "strip l \<noteq> []" and nc: "\<not> startswith (strip l) dashes"
    and nk: "\<forall>kw\<in>set ignore_keywords. \<not> sublist kw (strip l)"
    using assms by (auto simp: process_line_eq split: if_splits)
  have "\<exists>q. x = rstrip q \<and> rstrip q \<noteq> [] \<and> prefix q l \<and> \<not> sublist dashes q"
  proof (cases "sublist dashes l")
    case True
    with assms ne nc nk have x: "x = rstrip ?p" and sp: "\<not> (\<forall>c\<in>set ?p. isspace c)"
      by (auto simp: process_line_eq split: if_splits)
    from first_piece[OF True] obtain rest where
      l: "l = ?p @ dashes @ rest" and nf: "\<not> sublist dashes (?p @ [hyphen])"
      by blast
    have "prefix ?p l" by (metis l prefixI)
    moreover have "\<not> sublist dashes ?p"
      using nf by (metis sublist_append_rightI sublist_order.order_trans)
    ultimately show ?thesis using x sp by (metis rstrip_Nil_iff)
  next
    case False
    with assms ne nc nk have "x = rstrip l"
      by (auto simp: process_line_eq split: if_splits)
    moreover have "rstrip l \<noteq> []" using ne by (metis strip_Nil_iff rstrip_Nil_iff)
    ultimately show ?thesis using False by blast
  qed
  then obtain q where x: "x = rstrip q" and xne: "rstrip q \<noteq> []" and q: "prefix q l"
    and nd: "\<not> sublist dashes q"
    by blast
  show "x \<noteq> []" using x xne by simp
  show "\<not> isspace (last x)" using x xne by (simp add: rstrip_last)
  show px: "prefix x l" using x q rstrip_prefix prefix_order.order_trans by blast
  show "rstrip x = x" using x by (simp add: rstrip_idem)
  show "\<not> sublist dashes x"
    using x nd by (metis rstrip_prefix prefix_imp_sublist sublist_order.order_trans)
  show "\<forall>kw\<in>set ignore_keywords. \<not> sublist kw x"
  proof
    fix kw assume kw: "kw \<in> set ignore_keywords"
    show "\<not> sublist kw x"
    proof
      assume "sublist kw x"
      then have "sublist kw l"
        using px by (meson prefix_imp_sublist sublist_order.order_trans)
      then have "sublist kw (strip l)"
        using ignore_keywords_ends[OF kw] by (simp add: sublist_strip)
      with nk kw show False by blast
    qed
  qed
qed

lemma clean_loop_eq:
  "clean_loop acc ls = Inr (acc @ List.map_filter
     (\<lambda>l. case process_line l of Inl e \<Rightarrow> None | Inr r \<Rightarrow> r) ls)"
proof (induction ls arbitrary: acc)
  case Nil
  then show ?case by simp
next
  case (Cons l ls)
  obtain r where r: "process_line l = Inr r" using process_line_total by blast
  show ?case
    by (cases r) (simp_all add: r Cons.IH)
qed

lemma clean_lines_eq:
  "clean_lines ls = Inr (List.map_filter
     (\<lambda>l. case process_line l of Inl e \<Rightarrow> None | Inr r \<Rightarrow> r) ls)"
  by (simp add: clean_lines_def clean_loop_eq)

lemma clean_lines_member:
  assumes "clean_lines ls = Inr out" "x \<in> set out"
  shows "\<exists>l\<in>set ls. process_line l = Inr (Some x)"
proof -
  from assms obtain l where "l \<in> set ls"
    "(case process_line l of Inl e \<Rightarrow> None | Inr r \<Rightarrow> r) = Some x"
    by (auto simp: clean_lines_eq List.map_filter_def)
  then show ?thesis by (auto split: sum.splits)
qed

lemma clean_lines_append:
  "clean_lines xs = Inr a \<Longrightarrow> clean_lines ys = Inr b \<Longrightarrow> clean_lines (xs @ ys) = Inr (a @ b)"
  by (auto simp: clean_lines_eq List.map_filter_def)

lemma clean_lines_drop:
  "process_line l = Inr None \<Longrightarrow> clean_lines (xs @ l # ys) = clean_lines (xs @ ys)"
  by (simp add: clean_lines_eq List.map_filter_def)

lemma clean_lines_map:
  "\<forall>l\<in>set ls. process_line l = Inr (Some (g l)) \<Longrightarrow> clean_lines ls = Inr (map g ls)"
  by (induction ls) (simp_all add: clean_lines_eq)

section \<open>Lines that are skipped\<close>

text \<open>The definitions that the simplifier unfolds to run the model on a concrete input.\<close>

lemmas eval_defs = ustr_def strip_def lstrip_def rstrip_def isspace_def LF_def CR_def
  dashes_def hyphen_def startswith_def

lemmas run_defs = process_line_def clean_lines_def split_def item0_def ignore_keywords_def
  Let_def eval_defs

lemma output_line_props:
  assumes "clean_lines ls = Inr out" "x \<in> set out"
  shows "x \<noteq> []" and "\<not> isspace (last x)" and "rstrip x = x"
    and "\<not> sublist dashes x" and "\<forall>kw\<in>set ignore_keywords. \<not> sublist kw x"
  using clean_lines_member[OF assms] process_line_Some by blast+

lemma sublist_strip_line:
  assumes "sublist sub (strip l)" "sub \<noteq> []" "\<not> isspace (last sub)"
  shows "sublist sub l" and "sublist sub (rstrip l)"
proof -
  show "sublist sub l" using assms(1) strip_sublist sublist_order.order_trans by blast
  then show "sublist sub (rstrip l)" using assms(2,3) by (rule sublist_rstrip)
qed

text \<open>
  C10. A line whose trimmed form is not empty and does not start with \<open>--\<close>, and that
  contains \<open>--\<close>: \<open>split\<close> and \<open>[0]\<close> succeed, the piece is the text before the first
  \<open>--\<close>, and it holds a character that is not white space, so the test
  \<open>not line.strip()\<close> after the truncation is false and its \<open>continue\<close> is never taken.
\<close>

theorem truncation_never_blank:
  assumes "strip l \<noteq> []" and "\<not> startswith (strip l) dashes" and "contains dashes l"
  shows "\<exists>pieces piece rest.
           split l dashes = Inr pieces \<and> item0 pieces = Inr piece \<and>
           l = piece @ dashes @ rest \<and> \<not> contains dashes (piece @ [hyphen]) \<and>
           \<not> list_all isspace piece \<and> strip (rstrip piece) \<noteq> []"
proof -
  let ?p = "hd (split_from dashes [] l)"
  from assms(3) have d: "sublist dashes l" by (simp add: contains_sublist)
  from first_piece[OF d] obtain rest where
    l: "l = ?p @ dashes @ rest" and nf: "\<not> sublist dashes (?p @ [hyphen])"
    by blast
  have sp: "\<not> (\<forall>c\<in>set ?p. isspace c)"
    using spaces_before_dashes[OF l] assms(2) by blast
  then have "strip (rstrip ?p) \<noteq> []" by (simp add: strip_rstrip_Nil_iff)
  with l nf sp show ?thesis
    using split_total[of l] item0_split_from[of dashes "[]" l]
    by (auto simp: contains_sublist list_all_iff)
qed

theorem truncation_never_blank_witness:
  "strip (ustr ''a; -- b'' @ [LF]) \<noteq> [] \<and>
   \<not> startswith (strip (ustr ''a; -- b'' @ [LF])) dashes \<and>
   contains dashes (ustr ''a; -- b'' @ [LF]) \<and>
   (\<exists>pieces piece rest.
      split (ustr ''a; -- b'' @ [LF]) dashes = Inr pieces \<and> item0 pieces = Inr piece \<and>
      ustr ''a; -- b'' @ [LF] = piece @ dashes @ rest \<and>
      \<not> contains dashes (piece @ [hyphen]) \<and>
      \<not> list_all isspace piece \<and> strip (rstrip piece) \<noteq> [])"
proof -
  have h1: "strip (ustr ''a; -- b'' @ [LF]) \<noteq> []" by (simp add: eval_defs)
  have h2: "\<not> startswith (strip (ustr ''a; -- b'' @ [LF])) dashes" by (simp add: eval_defs)
  have h3: "contains dashes (ustr ''a; -- b'' @ [LF])" by (simp add: eval_defs)
  from truncation_never_blank[OF h1 h2 h3] h1 h2 h3 show ?thesis by blast
qed

text \<open>
  C3. A line of white space only, or whose trimmed form starts with \<open>--\<close>, is skipped by
  the loop: it adds nothing to \<open>cleaned_lines\<close>, wherever it stands among the input
  lines, and no line of any output is equal to it, to its trimmed form or to its
  right-trimmed form.
\<close>

theorem blank_and_comment_lines_dropped:
  assumes "list_all isspace l \<or> startswith (strip l) dashes"
  shows "process_line l = Inr None \<and>
         clean_lines (xs @ l # ys) = clean_lines (xs @ ys) \<and>
         (clean_lines ls = Inr out \<longrightarrow>
            l \<notin> set out \<and> strip l \<notin> set out \<and> rstrip l \<notin> set out)"
proof -
  from assms have c: "strip l = [] \<or> startswith (strip l) dashes"
    by (auto simp: strip_Nil_iff list_all_iff)
  then have none: "process_line l = Inr None" by (auto simp: process_line_eq)
  have "l \<notin> set out \<and> strip l \<notin> set out \<and> rstrip l \<notin> set out"
    if out: "clean_lines ls = Inr out"
  proof -
    note props = output_line_props[OF out]
    from c show ?thesis
    proof
      assume e: "strip l = []"
      then have ws: "\<forall>c\<in>set l. isspace c" by (simp add: strip_Nil_iff)
      then have "rstrip l = []" by (simp add: rstrip_Nil_iff)
      moreover have "l \<notin> set out"
      proof
        assume "l \<in> set out"
        from props(1,2)[OF this] ws show False using last_in_set by blast
      qed
      ultimately show ?thesis using e props(1) by auto
    next
      assume "startswith (strip l) dashes"
      then have "sublist dashes (strip l)" by (simp add: startswith_prefix)
      from sublist_strip_line[OF this dashes_ends(1,3)] this props(4)
      show ?thesis by blast
    qed
  qed
  with none show ?thesis by (simp add: clean_lines_drop)
qed

theorem blank_and_comment_lines_dropped_witness:
  "list_all isspace [32, 9, LF] \<and>
   process_line [32, 9, LF] = Inr None \<and>
   startswith (strip (ustr ''  -- this is a comment'' @ [LF])) dashes \<and>
   process_line (ustr ''  -- this is a comment'' @ [LF]) = Inr None \<and>
   clean_lines [ustr ''x'' @ [LF], ustr ''  -- this is a comment'' @ [LF], ustr ''y'']
     = clean_lines [ustr ''x'' @ [LF], ustr ''y''] \<and>
   clean_lines [ustr ''x'' @ [LF], ustr ''y''] = Inr [ustr ''x'', ustr ''y''] \<and>
   strip (ustr ''  -- this is a comment'' @ [LF]) \<notin> set [ustr ''x'', ustr ''y'']"
proof -
  have h1: "list_all isspace [32, 9, LF]" by (simp add: eval_defs)
  have h2: "startswith (strip (ustr ''  -- this is a comment'' @ [LF])) dashes"
    by (simp add: eval_defs)
  have h3: "clean_lines [ustr ''x'' @ [LF], ustr ''y''] = Inr [ustr ''x'', ustr ''y'']"
    by (simp add: run_defs)
  from h1 have b: "process_line [32, 9, LF] = Inr None"
    using blank_and_comment_lines_dropped[of "[32, 9, LF]"] by blast
  from h2 h3 blank_and_comment_lines_dropped[of "ustr ''  -- this is a comment'' @ [LF]"
      "[ustr ''x'' @ [LF]]" "[ustr ''y'']" "[ustr ''x'' @ [LF], ustr ''y'']"
      "[ustr ''x'', ustr ''y'']"]
  have "process_line (ustr ''  -- this is a comment'' @ [LF]) = Inr None"
    and "clean_lines ([ustr ''x'' @ [LF]] @ (ustr ''  -- this is a comment'' @ [LF]) # [ustr ''y''])
         = clean_lines ([ustr ''x'' @ [LF]] @ [ustr ''y''])"
    and "strip (ustr ''  -- this is a comment'' @ [LF]) \<notin> set [ustr ''x'', ustr ''y'']"
    by blast+
  with h1 h2 h3 b show ?thesis by (simp only: append_Cons append_Nil simp_thms)
qed

text \<open>
  C1. A line whose trimmed form contains one of the seven ignore patterns is skipped by the
  loop, whatever stands around the pattern (a quoted literal makes no difference): it
  adds nothing to \<open>cleaned_lines\<close>, and no line of any output is equal to it, to its
  trimmed form or to its right-trimmed form.
\<close>

theorem ignored_lines_dropped:
  assumes "kw \<in> set ignore_keywords" and "contains kw (strip l)"
  shows "process_line l = Inr None \<and>
         clean_lines (xs @ l # ys) = clean_lines (xs @ ys) \<and>
         (clean_lines ls = Inr out \<longrightarrow>
            l \<notin> set out \<and> strip l \<notin> set out \<and> rstrip l \<notin> set out)"
proof -
  from assms(2) have k: "sublist kw (strip l)" by (simp add: contains_sublist)
  with assms(1) have none: "process_line l = Inr None" by (auto simp: process_line_eq)
  have "l \<notin> set out \<and> strip l \<notin> set out \<and> rstrip l \<notin> set out"
    if out: "clean_lines ls = Inr out"
  proof -
    from ignore_keywords_ends[OF assms(1)] have "kw \<noteq> []" "\<not> isspace (last kw)"
      by simp_all
    from sublist_strip_line[OF k this] k output_line_props(5)[OF out] assms(1)
    show ?thesis by blast
  qed
  with none show ?thesis by (simp add: clean_lines_drop)
qed

theorem ignored_lines_dropped_witness:
  "ustr ''ACL'' \<in> set ignore_keywords \<and>
   contains (ustr ''ACL'') (strip (ustr '' SELECT '' @ [39] @ ustr ''ACL'' @ [39, 59, LF])) \<and>
   process_line (ustr '' SELECT '' @ [39] @ ustr ''ACL'' @ [39, 59, LF]) = Inr None \<and>
   ustr ''OWNER TO'' \<in> set ignore_keywords \<and>
   contains (ustr ''OWNER TO'') (strip (ustr ''ALTER TABLE foo OWNER TO admin;'' @ [LF])) \<and>
   process_line (ustr ''ALTER TABLE foo OWNER TO admin;'' @ [LF]) = Inr None \<and>
   clean_lines [ustr ''x'' @ [LF], ustr '' SELECT '' @ [39] @ ustr ''ACL'' @ [39, 59, LF]]
     = clean_lines [ustr ''x'' @ [LF]] \<and>
   clean_lines [ustr ''x'' @ [LF]] = Inr [ustr ''x''] \<and>
   strip (ustr '' SELECT '' @ [39] @ ustr ''ACL'' @ [39, 59, LF]) \<notin> set [ustr ''x'']"
proof -
  let ?l = "ustr '' SELECT '' @ [39] @ ustr ''ACL'' @ [39, 59, LF]"
  have h1: "ustr ''ACL'' \<in> set ignore_keywords" by (simp add: ignore_keywords_def)
  have h2: "contains (ustr ''ACL'') (strip ?l)" by (simp add: eval_defs)
  have h3: "ustr ''OWNER TO'' \<in> set ignore_keywords" by (simp add: ignore_keywords_def)
  have h4: "contains (ustr ''OWNER TO'')
              (strip (ustr ''ALTER TABLE foo OWNER TO admin;'' @ [LF]))"
    by (simp add: eval_defs)
  have h5: "clean_lines [ustr ''x'' @ [LF]] = Inr [ustr ''x'']" by (simp add: run_defs)
  from ignored_lines_dropped[OF h1 h2, of "[ustr ''x'' @ [LF]]" "[]" "[ustr ''x'' @ [LF]]"
      "[ustr ''x'']"] h5
  have "process_line ?l = Inr None"
    and "clean_lines ([ustr ''x'' @ [LF]] @ [?l]) = clean_lines ([ustr ''x'' @ [LF]] @ [])"
    and "strip ?l \<notin> set [ustr ''x'']"
    by blast+
  with ignored_lines_dropped[OF h3 h4] h1 h2 h3 h4 h5
  show ?thesis by (simp only: append_Cons append_Nil simp_thms)
qed

section \<open>Inline comments\<close>

text \<open>
  C2. A line that passes the blank/comment test and the ignore test and contains \<open>--\<close>
  is cut at the first \<open>--\<close>: with \<open>p\<close> the text before that first occurrence, the loop
  appends \<open>p\<close> without its trailing white space, and skips the line when that text is
  blank, which is exactly when \<open>p\<close> is white space only.
\<close>

theorem inline_comment_truncated:
  assumes "strip l \<noteq> []" and "\<not> startswith (strip l) dashes"
    and "\<not> list_ex (\<lambda>kw. contains kw (strip l)) ignore_keywords"
    and "contains dashes l"
  shows "\<exists>p rest. l = p @ dashes @ rest \<and> \<not> contains dashes (p @ [hyphen]) \<and>
           process_line l = Inr (if strip (rstrip p) = [] then None else Some (rstrip p)) \<and>
           (strip (rstrip p) = [] \<longleftrightarrow> list_all isspace p)"
proof -
  let ?p = "hd (split_from dashes [] l)"
  from assms(4) have d: "sublist dashes l" by (simp add: contains_sublist)
  from first_piece[OF d] obtain rest where
    l: "l = ?p @ dashes @ rest" and nf: "\<not> contains dashes (?p @ [hyphen])"
    by (auto simp: contains_sublist)
  have "process_line l = Inr (if strip (rstrip ?p) = [] then None else Some (rstrip ?p))"
    using assms(1,2,3) d
    by (simp add: process_line_eq strip_rstrip_Nil_iff list_ex_iff contains_sublist)
  moreover have "strip (rstrip ?p) = [] \<longleftrightarrow> list_all isspace ?p"
    by (simp add: strip_rstrip_Nil_iff list_all_iff)
  ultimately show ?thesis using l nf by blast
qed

theorem inline_comment_truncated_witness:
  "strip (ustr ''INSERT INTO t VALUES (1); -- seed row'' @ [LF]) \<noteq> [] \<and>
   \<not> startswith (strip (ustr ''INSERT INTO t VALUES (1); -- seed row'' @ [LF])) dashes \<and>
   \<not> list_ex (\<lambda>kw. contains kw (strip (ustr ''INSERT INTO t VALUES (1); -- seed row'' @ [LF])))
        ignore_keywords \<and>
   contains dashes (ustr ''INSERT INTO t VALUES (1); -- seed row'' @ [LF]) \<and>
   (\<exists>p rest.
      ustr ''INSERT INTO t VALUES (1); -- seed row'' @ [LF] = p @ dashes @ rest \<and>
      \<not> contains dashes (p @ [hyphen]) \<and>
      process_line (ustr ''INSERT INTO t VALUES (1); -- seed row'' @ [LF])
        = Inr (if strip (rstrip p) = [] then None else Some (rstrip p)) \<and>
      (strip (rstrip p) = [] \<longleftrightarrow> list_all isspace p)) \<and>
   process_line (ustr ''INSERT INTO t VALUES (1); -- seed row'' @ [LF])
     = Inr (Some (ustr ''INSERT INTO t VALUES (1);''))"
proof -
  let ?l = "ustr ''INSERT INTO t VALUES (1); -- seed row'' @ [LF]"
  have h1: "strip ?l \<noteq> []" by (simp add: eval_defs)
  have h2: "\<not> startswith (strip ?l) dashes" by (simp add: eval_defs)
  have h3: "\<not> list_ex (\<lambda>kw. contains kw (strip ?l)) ignore_keywords"
    by (simp add: eval_defs ignore_keywords_def)
  have h4: "contains dashes ?l" by (simp add: eval_defs)
  have v: "process_line ?l = Inr (Some (ustr ''INSERT INTO t VALUES (1);''))"
    by (simp add: run_defs)
  from inline_comment_truncated[OF h1 h2 h3 h4] h1 h2 h3 h4 v show ?thesis by blast
qed

section \<open>Order of the rules, the lines of the output, their order\<close>

lemma process_line_plain:
  assumes "\<not> list_all isspace p" and "\<not> sublist dashes p"
    and "\<forall>kw\<in>set ignore_keywords. \<not> sublist kw p"
  shows "process_line p = Inr (Some (rstrip p))"
proof -
  have "strip p \<noteq> []" using assms(1) by (simp add: strip_Nil_iff list_all_iff)
  moreover have "\<not> startswith (strip p) dashes"
    using assms(2) strip_sublist[of p]
    by (metis startswith_prefix prefix_imp_sublist sublist_order.order_trans)
  moreover have "\<forall>kw\<in>set ignore_keywords. \<not> sublist kw (strip p)"
    using assms(3) strip_sublist[of p] sublist_order.order_trans by blast
  ultimately show ?thesis using assms(2) by (simp add: process_line_eq)
qed

text \<open>
  C7. The ignore test reads the whole trimmed line, comment included, and comes before
  the comment is cut off. So a line whose text before the first \<open>--\<close> holds no ignore
  pattern, and whose comment holds one, is skipped; the text before the \<open>--\<close>, as a line
  of its own, would have been kept.
\<close>

theorem ignore_rule_sees_comment:
  assumes "l = p @ dashes @ rest" and "\<not> contains dashes (p @ [hyphen])"
    and "\<not> list_ex (\<lambda>k. contains k p) ignore_keywords"
    and "kw \<in> set ignore_keywords" and "contains kw (dashes @ rest)"
  shows "contains kw (strip l) \<and> process_line l = Inr None \<and>
         (list_all isspace p \<or> process_line p = Inr (Some (rstrip p)))"
proof -
  from assms(1,5) have "sublist kw l"
    by (metis contains_sublist sublist_order.order_trans sublist_append_leftI)
  then have k: "sublist kw (strip l)"
    using ignore_keywords_ends[OF assms(4)] by (simp add: sublist_strip)
  with assms(4) have "process_line l = Inr None" by (auto simp: process_line_eq)
  moreover have "process_line p = Inr (Some (rstrip p))" if "\<not> list_all isspace p"
  proof (rule process_line_plain[OF that])
    show "\<not> sublist dashes p"
      using assms(2)
      by (metis contains_sublist sublist_append_rightI sublist_order.order_trans)
    show "\<forall>kw\<in>set ignore_keywords. \<not> sublist kw p"
      using assms(3) by (simp add: list_ex_iff contains_sublist)
  qed
  ultimately show ?thesis using k by (auto simp: contains_sublist)
qed

theorem ignore_rule_sees_comment_witness:
  "ustr ''SELECT 1; -- ACL'' @ [LF] = ustr ''SELECT 1; '' @ dashes @ (ustr '' ACL'' @ [LF]) \<and>
   \<not> contains dashes (ustr ''SELECT 1; '' @ [hyphen]) \<and>
   \<not> list_ex (\<lambda>k. contains k (ustr ''SELECT 1; '')) ignore_keywords \<and>
   ustr ''ACL'' \<in> set ignore_keywords \<and>
   contains (ustr ''ACL'') (dashes @ (ustr '' ACL'' @ [LF])) \<and>
   \<not> list_all isspace (ustr ''SELECT 1; '') \<and>
   process_line (ustr ''SELECT 1; -- ACL'' @ [LF]) = Inr None \<and>
   process_line (ustr ''SELECT 1; '') = Inr (Some (ustr ''SELECT 1;''))"
proof -
  have h1: "ustr ''SELECT 1; -- ACL'' @ [LF]
            = ustr ''SELECT 1; '' @ dashes @ (ustr '' ACL'' @ [LF])"
    by (simp add: eval_defs)
  have h2: "\<not> contains dashes (ustr ''SELECT 1; '' @ [hyphen])" by (simp add: eval_defs)
  have h3: "\<not> list_ex (\<lambda>k. contains k (ustr ''SELECT 1; '')) ignore_keywords"
    by (simp add: eval_defs ignore_keywords_def)
  have h4: "ustr ''ACL'' \<in> set ignore_keywords" by (simp add: ignore_keywords_def)
  have h5: "contains (ustr ''ACL'') (dashes @ (ustr '' ACL'' @ [LF]))"
    by (simp add: eval_defs)
  have h6: "\<not> list_all isspace (ustr ''SELECT 1; '')" by (simp add: eval_defs)
  have r: "rstrip (ustr ''SELECT 1; '') = ustr ''SELECT 1;''" by (simp add: eval_defs)
  from ignore_rule_sees_comment[OF h1 h2 h3 h4 h5] h6 r
  have "process_line (ustr ''SELECT 1; -- ACL'' @ [LF]) = Inr None"
    and "process_line (ustr ''SELECT 1; '') = Inr (Some (ustr ''SELECT 1;''))"
    by auto
  with h1 h2 h3 h4 h5 h6 show ?thesis by blast
qed

lemma takeWhile_prefix_eq:
  assumes "prefix x l" and "\<not> (\<forall>c\<in>set x. P c)"
  shows "takeWhile P x = takeWhile P l"
proof -
  from assms(1) obtain z where "l = x @ z" by (auto simp: prefix_def)
  with assms(2) show ?thesis by (auto simp: takeWhile_append)
qed

text \<open>
  C9. Every line of \<open>cleaned_lines\<close> is non-empty and not white space only, has no
  trailing white space, contains neither \<open>--\<close> nor any ignore pattern, and is a prefix of
  one of the input lines with the same leading white space.
\<close>

theorem output_line_invariant:
  assumes "clean_lines ls = Inr out" and "x \<in> set out"
  shows "x \<noteq> [] \<and> \<not> list_all isspace x \<and> rstrip x = x \<and> \<not> isspace (last x) \<and>
         \<not> contains dashes x \<and> \<not> list_ex (\<lambda>kw. contains kw x) ignore_keywords \<and>
         (\<exists>l\<in>set ls. prefix x l \<and> takeWhile isspace x = takeWhile isspace l)"
proof -
  note props = output_line_props[OF assms]
  have ns: "\<not> (\<forall>c\<in>set x. isspace c)" using props(1,2) last_in_set by blast
  from clean_lines_member[OF assms] obtain l where "l \<in> set ls" "prefix x l"
    using process_line_Some(3) by blast
  with ns have "\<exists>l\<in>set ls. prefix x l \<and> takeWhile isspace x = takeWhile isspace l"
    using takeWhile_prefix_eq by blast
  with props ns show ?thesis by (simp add: list_all_iff list_ex_iff contains_sublist)
qed

theorem output_line_invariant_witness:
  "clean_lines [ustr ''  a -- c'' @ [LF], ustr ''ACL'' @ [LF]] = Inr [ustr ''  a''] \<and>
   ustr ''  a'' \<in> set [ustr ''  a''] \<and>
   ustr ''  a'' \<noteq> [] \<and> \<not> list_all isspace (ustr ''  a'') \<and>
   rstrip (ustr ''  a'') = ustr ''  a'' \<and> \<not> isspace (last (ustr ''  a'')) \<and>
   \<not> contains dashes (ustr ''  a'') \<and>
   \<not> list_ex (\<lambda>kw. contains kw (ustr ''  a'')) ignore_keywords \<and>
   (\<exists>l\<in>set [ustr ''  a -- c'' @ [LF], ustr ''ACL'' @ [LF]].
      prefix (ustr ''  a'') l \<and> takeWhile isspace (ustr ''  a'') = takeWhile isspace l)"
proof -
  have h1: "clean_lines [ustr ''  a -- c'' @ [LF], ustr ''ACL'' @ [LF]] = Inr [ustr ''  a'']"
    by (simp add: run_defs)
  have h2: "ustr ''  a'' \<in> set [ustr ''  a'']" by simp
  from output_line_invariant[OF h1 h2] h1 h2 show ?thesis by blast
qed

text \<open>
  C5. The output lines are the results of the loop body on the input lines, taken in
  input order, one for each line that is kept: nothing is moved and nothing is merged.
  In particular the output for two inputs one after the other is the two outputs one
  after the other.
\<close>

theorem order_preserved:
  "clean_lines ls = Inr (List.map_filter
      (\<lambda>l. case process_line l of Inl e \<Rightarrow> None | Inr r \<Rightarrow> r) ls) \<and>
   (\<exists>a b. clean_lines xs = Inr a \<and> clean_lines ys = Inr b \<and>
          clean_lines (xs @ ys) = Inr (a @ b))"
  using clean_lines_eq[of ls] clean_lines_eq[of xs] clean_lines_eq[of ys]
    clean_lines_append[of xs _ ys]
  by blast

theorem order_preserved_witness:
  "clean_lines [ustr ''b'' @ [LF], ustr ''-- c'' @ [LF], ustr ''a'' @ [LF], ustr ''a'' @ [LF]]
     = Inr (List.map_filter (\<lambda>l. case process_line l of Inl e \<Rightarrow> None | Inr r \<Rightarrow> r)
         [ustr ''b'' @ [LF], ustr ''-- c'' @ [LF], ustr ''a'' @ [LF], ustr ''a'' @ [LF]]) \<and>
   clean_lines [ustr ''b'' @ [LF], ustr ''-- c'' @ [LF], ustr ''a'' @ [LF], ustr ''a'' @ [LF]]
     = Inr [ustr ''b'', ustr ''a'', ustr ''a''] \<and>
   (\<exists>a b. clean_lines [ustr ''b'' @ [LF], ustr ''-- c'' @ [LF]] = Inr a \<and>
          clean_lines [ustr ''a'' @ [LF], ustr ''a'' @ [LF]] = Inr b \<and>
          clean_lines ([ustr ''b'' @ [LF], ustr ''-- c'' @ [LF]]
                       @ [ustr ''a'' @ [LF], ustr ''a'' @ [LF]]) = Inr (a @ b))"
proof -
  have v: "clean_lines [ustr ''b'' @ [LF], ustr ''-- c'' @ [LF], ustr ''a'' @ [LF],
                        ustr ''a'' @ [LF]] = Inr [ustr ''b'', ustr ''a'', ustr ''a'']"
    by (simp add: run_defs)
  from order_preserved[of "[ustr ''b'' @ [LF], ustr ''-- c'' @ [LF], ustr ''a'' @ [LF],
      ustr ''a'' @ [LF]]" "[ustr ''b'' @ [LF], ustr ''-- c'' @ [LF]]"
      "[ustr ''a'' @ [LF], ustr ''a'' @ [LF]]"] v
  show ?thesis by blast
qed

section \<open>Failures\<close>

lemma clean_lines_total: "\<exists>out. clean_lines ls = Inr out"
  by (simp add: clean_lines_eq)


lemma open_read_stdout [simp]: "open_read (w\<lparr>stdout := s\<rparr>) path = open_read w path"
  by (simp add: open_read_def)



lemma clean_sql_writes:
  assumes "print_error w (cleaning_message input_file output_file) = None"
    and "0 \<notin> set input_file" and "files w input_file = Inr content"
    and "clean_text content = Inr t"
    and "0 \<notin> set output_file" and "write_error w output_file t = None"
    and "print_error w (saved_message output_file) = None"
  shows "\<exists>w'. clean_sql input_file output_file w = Inr w' \<and>
           files w' = (files w)(output_file := Inr t) \<and>
           write_error w' = write_error w \<and> print_error w' = print_error w"
  using assms by (simp add: clean_sql_def print_def open_read_def open_write_def)


lemmas world_defs = one_file_def utf8_strict_def cleaning_message_def saved_message_def
  open_read_def open_write_def ustr_def




section \<open>The written text\<close>

lemma LF_neq_CR: "LF \<noteq> CR"
  by (simp add: LF_def CR_def)

lemma universal_newlines_no_CR: "CR \<notin> set (universal_newlines t)"
  by (induction t rule: universal_newlines.induct) (auto simp: LF_def CR_def)

lemma universal_newlines_id: "CR \<notin> set t \<Longrightarrow> universal_newlines t = t"
  by (induction t rule: universal_newlines.induct) auto

lemma readlines_from_props:
  "l \<in> set (readlines_from cur t) \<Longrightarrow> LF \<notin> set cur \<Longrightarrow>
   l \<noteq> [] \<and> LF \<notin> set (butlast l) \<and> set l \<subseteq> set cur \<union> set t"
proof (induction t arbitrary: cur)
  case Nil
  then show ?case by (auto split: if_splits dest: in_set_butlastD)
next
  case (Cons c cs)
  show ?case
  proof (cases "c = LF")
    case True
    with Cons.prems(1) have "l = cur @ [c] \<or> l \<in> set (readlines_from [] cs)" by simp
    then show ?thesis
    proof
      assume "l = cur @ [c]"
      with Cons.prems(2) show ?thesis by auto
    next
      assume "l \<in> set (readlines_from [] cs)"
      from Cons.IH[OF this] show ?thesis by auto
    qed
  next
    case False
    with Cons.prems(1) have "l \<in> set (readlines_from (cur @ [c]) cs)" by simp
    from Cons.IH[OF this] False Cons.prems(2) show ?thesis by auto
  qed
qed

lemma readlines_props:
  assumes "l \<in> set (readlines content)"
  shows "l \<noteq> []" and "LF \<notin> set (butlast l)" and "CR \<notin> set l"
  using readlines_from_props[of l "[]" "universal_newlines content"] assms
    universal_newlines_no_CR[of content]
  by (auto simp: readlines_def)

lemma set_butlast_prefix: "prefix x l \<Longrightarrow> set (butlast x) \<subseteq> set (butlast l)"
  by (auto simp: prefix_def butlast_append dest: in_set_butlastD)

lemma output_no_newline:
  assumes "clean_lines (readlines content) = Inr out" and "x \<in> set out"
  shows "LF \<notin> set x" and "CR \<notin> set x"
proof -
  from clean_lines_member[OF assms] obtain l where
    l: "l \<in> set (readlines content)" and p: "process_line l = Inr (Some x)"
    by blast
  note props = process_line_Some[OF p]
  have "LF \<notin> set (butlast x)"
    using set_butlast_prefix[OF props(3)] readlines_props(2)[OF l] by blast
  moreover have "last x \<noteq> LF" using props(2) isspace_LF by metis
  moreover have "x = butlast x @ [last x]" using props(1) by simp
  ultimately show "LF \<notin> set x" by (metis Un_iff set_append empty_iff empty_set set_ConsD)
  show "CR \<notin> set x"
    using readlines_props(3)[OF l] set_mono_prefix[OF props(3)] by blast
qed

lemma readlines_from_skip:
  "LF \<notin> set x \<Longrightarrow> readlines_from cur (x @ t) = readlines_from (cur @ x) t"
  by (induction x arbitrary: cur) simp_all

lemma readlines_from_join:
  "\<forall>x\<in>set xs. x \<noteq> [] \<and> LF \<notin> set x \<Longrightarrow>
   readlines_from [] (join [LF] xs)
     = (if xs = [] then [] else map (\<lambda>x. x @ [LF]) (butlast xs) @ [last xs])"
proof (induction "[LF]" xs rule: join.induct)
  case 1
  then show ?case by simp
next
  case (2 x)
  then show ?case using readlines_from_skip[of x "[]" "[]"] by simp
next
  case (3 x y ys)
  from 3 have "LF \<notin> set x" by simp
  then have "readlines_from [] (x @ LF # join [LF] (y # ys))
             = (x @ [LF]) # readlines_from [] (join [LF] (y # ys))"
    using readlines_from_skip[of x "[]" "LF # join [LF] (y # ys)"] by simp
  with 3 show ?case by simp
qed

lemma set_join: "set (join sep xs) \<subseteq> set sep \<union> \<Union>(set ` set xs)"
  by (induction sep xs rule: join.induct) auto

lemma count_join:
  "\<forall>x\<in>set xs. LF \<notin> set x \<Longrightarrow> count_list (join [LF] xs) LF = length xs - 1"
  by (induction "[LF]" xs rule: join.induct) (simp_all add: count_list_0_iff)

lemma last_join:
  "xs \<noteq> [] \<Longrightarrow> last xs \<noteq> [] \<Longrightarrow>
   join sep xs \<noteq> [] \<and> last (join sep xs) = last (last xs)"
  by (induction sep xs rule: join.induct) simp_all

lemma process_line_fixed:
  assumes "x \<noteq> []" and "\<not> isspace (last x)" and "\<not> sublist dashes x"
    and "\<forall>kw\<in>set ignore_keywords. \<not> sublist kw x" and "\<forall>c\<in>set ws. isspace c"
  shows "process_line (x @ ws) = Inr (Some x)" and "rstrip (x @ ws) = x"
proof -
  show r: "rstrip (x @ ws) = x"
    using assms(1,2,5) by (simp add: rstrip_append_space rstrip_keep)
  have "\<not> list_all isspace (x @ ws)"
    using assms(1,2) last_in_set by (auto simp: list_all_iff)
  moreover have "\<not> sublist dashes (x @ ws)"
    using sublist_rstrip[OF _ dashes_ends(1,3), of "x @ ws"] assms(3) r by auto
  moreover have "\<forall>kw\<in>set ignore_keywords. \<not> sublist kw (x @ ws)"
    using sublist_rstrip[of _ "x @ ws"] ignore_keywords_ends assms(4) r by metis
  ultimately show "process_line (x @ ws) = Inr (Some x)"
    using process_line_plain[of "x @ ws"] r by simp
qed

lemma readlines_join:
  assumes "clean_lines (readlines content) = Inr out"
  shows "readlines (join [LF] out)
           = (if out = [] then [] else map (\<lambda>x. x @ [LF]) (butlast out) @ [last out])"
proof -
  have "CR \<notin> set (join [LF] out)"
    using set_join[of "[LF]" out] output_no_newline(2)[OF assms] LF_neq_CR by auto
  then have "readlines (join [LF] out) = readlines_from [] (join [LF] out)"
    by (simp add: readlines_def universal_newlines_id)
  moreover have "\<forall>x\<in>set out. x \<noteq> [] \<and> LF \<notin> set x"
    using output_line_props(1)[OF assms] output_no_newline(1)[OF assms] by blast
  ultimately show ?thesis by (simp add: readlines_from_join)
qed

lemma reread_lines:
  assumes "clean_lines (readlines content) = Inr out"
  shows "clean_lines (readlines (join [LF] out)) = Inr out"
    and "map rstrip (readlines (join [LF] out)) = out"
proof -
  let ?ls = "readlines (join [LF] out)"
  note props = output_line_props[OF assms]
  have fixed: "process_line (x @ ws) = Inr (Some x) \<and> rstrip (x @ ws) = x"
    if "x \<in> set out" "\<forall>c\<in>set ws. isspace c" for x ws
    using process_line_fixed[of x ws] props(1,2,4,5)[OF that(1)] that(2) by blast
  have shape: "?ls = (if out = [] then [] else map (\<lambda>x. x @ [LF]) (butlast out) @ [last out])"
    by (rule readlines_join[OF assms])
  have each: "process_line l = Inr (Some (rstrip l))" if "l \<in> set ?ls" for l
  proof -
    from that shape have ne: "out \<noteq> []"
      and "l \<in> (\<lambda>x. x @ [LF]) ` set (butlast out) \<or> l = last out"
      by (auto split: if_splits)
    then consider x where "x \<in> set out" "l = x @ [LF]" | "l \<in> set out" "l = l @ []"
      by (auto dest: in_set_butlastD)
    then show ?thesis
    proof cases
      case 1
      with fixed[of x "[LF]"] show ?thesis by (simp add: isspace_LF)
    next
      case 2
      with fixed[of l "[]"] show ?thesis by simp
    qed
  qed
  have m: "map rstrip ?ls = out"
  proof (cases "out = []")
    case True
    with shape show ?thesis by simp
  next
    case False
    have "rstrip (x @ [LF]) = x" if "x \<in> set (butlast out)" for x
      using fixed[of x "[LF]"] that by (simp add: isspace_LF in_set_butlastD)
    then have "map (\<lambda>x. rstrip (x @ [LF])) (butlast out) = butlast out"
      by (simp add: map_idI)
    then have "map rstrip (map (\<lambda>x. x @ [LF]) (butlast out)) = butlast out"
      by (simp add: o_def)
    moreover have "rstrip (last out) = last out"
      using props(3)[of "last out"] False by simp
    ultimately show ?thesis using shape False by simp
  qed
  then show "map rstrip ?ls = out" .
  from clean_lines_map[of ?ls rstrip] each m show "clean_lines ?ls = Inr out" by simp
qed

lemma clean_text_eq:
  "clean_lines (readlines content) = Inr out \<Longrightarrow> clean_text content = Inr (join [LF] out)"
  by (simp add: clean_text_def)

text \<open>
  C4. The text written is the surviving lines joined by \<open>\n\<close>. No surviving line holds a
  \<open>\n\<close>, so the text holds one \<open>\n\<close> less than it has lines, it does not end in \<open>\n\<close>,
  and read back it falls into the surviving lines, each but the last followed by its
  \<open>\n\<close>. An empty input gives the empty text.
\<close>

theorem output_is_newline_joined:
  "clean_text [] = Inr [] \<and>
   (\<exists>out. clean_lines (readlines content) = Inr out \<and>
      clean_text content = Inr (join [LF] out) \<and>
      list_all (\<lambda>x. LF \<notin> set x) out \<and>
      count_list (join [LF] out) LF = length out - 1 \<and>
      (out = [] \<or> last (join [LF] out) \<noteq> LF) \<and>
      readlines (join [LF] out)
        = (if out = [] then [] else map (\<lambda>x. x @ [LF]) (butlast out) @ [last out]) \<and>
      (print_error w (cleaning_message input_file output_file) = None \<and>
       0 \<notin> set input_file \<and> files w input_file = Inr content \<and>
       0 \<notin> set output_file \<and> write_error w output_file (join [LF] out) = None \<and>
       print_error w (saved_message output_file) = None \<longrightarrow>
         (\<exists>w'. clean_sql input_file output_file w = Inr w' \<and>
            files w' output_file = Inr (join [LF] out))))"
proof -
  obtain out where out: "clean_lines (readlines content) = Inr out"
    using clean_lines_total by blast
  note t = clean_text_eq[OF out]
  have nl: "\<forall>x\<in>set out. LF \<notin> set x" using output_no_newline(1)[OF out] by blast
  have "last (join [LF] out) \<noteq> LF" if "out \<noteq> []"
  proof -
    have l: "last out \<in> set out" using that by simp
    from output_line_props(1,2)[OF out l] last_join[OF that, of "[LF]"] isspace_LF
    show ?thesis by metis
  qed
  moreover have "\<exists>w'. clean_sql input_file output_file w = Inr w' \<and>
      files w' output_file = Inr (join [LF] out)"
    if "print_error w (cleaning_message input_file output_file) = None"
      "0 \<notin> set input_file" "files w input_file = Inr content"
      "0 \<notin> set output_file" "write_error w output_file (join [LF] out) = None"
      "print_error w (saved_message output_file) = None"
    using clean_sql_writes[OF that(1,2,3) t that(4,5,6)] by auto
  moreover have "clean_text [] = Inr []"
    by (simp add: clean_text_def readlines_def clean_lines_def)
  ultimately show ?thesis
    using out t nl count_join[OF nl] readlines_join[OF out] by (auto simp: list_all_iff)
qed

theorem output_is_newline_joined_witness:
  "clean_text [] = Inr [] \<and>
   clean_lines (readlines (ustr ''a'' @ [CR, LF, LF] @ ustr ''-- c'' @ [LF] @ ustr ''b -- d'' @ [LF]))
     = Inr [ustr ''a'', ustr ''b''] \<and>
   clean_text (ustr ''a'' @ [CR, LF, LF] @ ustr ''-- c'' @ [LF] @ ustr ''b -- d'' @ [LF])
     = Inr (ustr ''a'' @ [LF] @ ustr ''b'') \<and>
   count_list (ustr ''a'' @ [LF] @ ustr ''b'') LF = 1 \<and>
   last (ustr ''a'' @ [LF] @ ustr ''b'') \<noteq> LF \<and>
   readlines (ustr ''a'' @ [LF] @ ustr ''b'') = [ustr ''a'' @ [LF], ustr ''b''] \<and>
   (\<exists>w'. clean_sql (ustr ''in'') (ustr ''out'')
      (one_file (ustr ''in'')
         (ustr ''a'' @ [CR, LF, LF] @ ustr ''-- c'' @ [LF] @ ustr ''b -- d'' @ [LF])) = Inr w' \<and>
      files w' (ustr ''out'') = Inr (ustr ''a'' @ [LF] @ ustr ''b''))"
proof -
  let ?c = "ustr ''a'' @ [CR, LF, LF] @ ustr ''-- c'' @ [LF] @ ustr ''b -- d'' @ [LF]"
  let ?w = "one_file (ustr ''in'') ?c"
  have rl: "readlines ?c = [ustr ''a'' @ [LF], [LF], ustr ''-- c'' @ [LF], ustr ''b -- d'' @ [LF]]"
    by (simp add: readlines_def eval_defs)
  have v: "clean_lines (readlines ?c) = Inr [ustr ''a'', ustr ''b'']"
    unfolding rl by (simp add: run_defs)
  have j: "join [LF] [ustr ''a'', ustr ''b''] = ustr ''a'' @ [LF] @ ustr ''b''" by simp
  have e: "print_error ?w (cleaning_message (ustr ''in'') (ustr ''out'')) = None"
    "0 \<notin> set (ustr ''in'')" "files ?w (ustr ''in'') = Inr ?c"
    "0 \<notin> set (ustr ''out'')"
    "write_error ?w (ustr ''out'') (join [LF] [ustr ''a'', ustr ''b'']) = None"
    "print_error ?w (saved_message (ustr ''out'')) = None"
    by (simp_all add: world_defs)
  from output_is_newline_joined[of ?c ?w "ustr ''in''" "ustr ''out''"] v e
  have "clean_text [] = Inr []"
    and "clean_text ?c = Inr (join [LF] [ustr ''a'', ustr ''b''])"
    and "count_list (join [LF] [ustr ''a'', ustr ''b'']) LF = length [ustr ''a'', ustr ''b''] - 1"
    and "last (join [LF] [ustr ''a'', ustr ''b'']) \<noteq> LF"
    and "readlines (join [LF] [ustr ''a'', ustr ''b''])
         = map (\<lambda>x. x @ [LF]) (butlast [ustr ''a'', ustr ''b'']) @ [last [ustr ''a'', ustr ''b'']]"
    and "\<exists>w'. clean_sql (ustr ''in'') (ustr ''out'') ?w = Inr w' \<and>
           files w' (ustr ''out'') = Inr (join [LF] [ustr ''a'', ustr ''b''])"
    by auto
  with v show ?thesis unfolding j by simp
qed

text \<open>
  C6. Cleaning the cleaned text again changes nothing: read back, the cleaned text gives
  lines that the loop keeps as they are, and the text written the second time is the
  text written the first time.
\<close>

theorem clean_idempotent:
  "\<exists>out. clean_lines (readlines content) = Inr out \<and>
      clean_text content = Inr (join [LF] out) \<and>
      clean_lines (readlines (join [LF] out)) = Inr out \<and>
      clean_text (join [LF] out) = Inr (join [LF] out) \<and>
      (print_error w (cleaning_message input_file output_file) = None \<and>
       0 \<notin> set input_file \<and> files w input_file = Inr content \<and>
       0 \<notin> set output_file \<and> write_error w output_file (join [LF] out) = None \<and>
       print_error w (saved_message output_file) = None \<and>
       print_error w (cleaning_message output_file again_file) = None \<and>
       0 \<notin> set again_file \<and> write_error w again_file (join [LF] out) = None \<and>
       print_error w (saved_message again_file) = None \<longrightarrow>
         (\<exists>w' w''. clean_sql input_file output_file w = Inr w' \<and>
            clean_sql output_file again_file w' = Inr w'' \<and>
            files w'' again_file = files w' output_file))"
proof -
  obtain out where out: "clean_lines (readlines content) = Inr out"
    using clean_lines_total by blast
  note t = clean_text_eq[OF out]
  note again = reread_lines(1)[OF out]
  note t2 = clean_text_eq[OF again]
  have "\<exists>w' w''. clean_sql input_file output_file w = Inr w' \<and>
      clean_sql output_file again_file w' = Inr w'' \<and>
      files w'' again_file = files w' output_file"
    if h: "print_error w (cleaning_message input_file output_file) = None"
      "0 \<notin> set input_file" "files w input_file = Inr content"
      "0 \<notin> set output_file" "write_error w output_file (join [LF] out) = None"
      "print_error w (saved_message output_file) = None"
      "print_error w (cleaning_message output_file again_file) = None"
      "0 \<notin> set again_file" "write_error w again_file (join [LF] out) = None"
      "print_error w (saved_message again_file) = None"
  proof -
    from clean_sql_writes[OF h(1,2,3) t h(4,5,6)] obtain w' where
      w': "clean_sql input_file output_file w = Inr w'"
      "files w' = (files w)(output_file := Inr (join [LF] out))"
      "write_error w' = write_error w" "print_error w' = print_error w"
      by blast
    have "print_error w' (cleaning_message output_file again_file) = None"
      "files w' output_file = Inr (join [LF] out)"
      "write_error w' again_file (join [LF] out) = None"
      "print_error w' (saved_message again_file) = None"
      using w'(2,3,4) h(7,9,10) by simp_all
    from clean_sql_writes[OF this(1) h(4) this(2) t2 h(8) this(3,4)] w'(1,2)
    show ?thesis by auto
  qed
  then have "print_error w (cleaning_message input_file output_file) = None \<and>
       0 \<notin> set input_file \<and> files w input_file = Inr content \<and>
       0 \<notin> set output_file \<and> write_error w output_file (join [LF] out) = None \<and>
       print_error w (saved_message output_file) = None \<and>
       print_error w (cleaning_message output_file again_file) = None \<and>
       0 \<notin> set again_file \<and> write_error w again_file (join [LF] out) = None \<and>
       print_error w (saved_message again_file) = None \<longrightarrow>
         (\<exists>w' w''. clean_sql input_file output_file w = Inr w' \<and>
            clean_sql output_file again_file w' = Inr w'' \<and>
            files w'' again_file = files w' output_file)"
    by (intro impI) (elim conjE)
  with out t again t2 show ?thesis by (intro exI[of _ out] conjI)
qed

theorem clean_idempotent_witness:
  "clean_text (ustr '' a  -- c'' @ [CR] @ ustr ''ACL'' @ [LF, LF] @ ustr ''b '')
     = Inr (ustr '' a'' @ [LF] @ ustr ''b'') \<and>
   clean_text (ustr '' a'' @ [LF] @ ustr ''b'') = Inr (ustr '' a'' @ [LF] @ ustr ''b'') \<and>
   (\<exists>w' w''. clean_sql (ustr ''in'') (ustr ''out'')
      (one_file (ustr ''in'')
         (ustr '' a  -- c'' @ [CR] @ ustr ''ACL'' @ [LF, LF] @ ustr ''b '')) = Inr w' \<and>
      clean_sql (ustr ''out'') (ustr ''out2'') w' = Inr w'' \<and>
      files w'' (ustr ''out2'') = files w' (ustr ''out''))"
proof -
  let ?c = "ustr '' a  -- c'' @ [CR] @ ustr ''ACL'' @ [LF, LF] @ ustr ''b ''"
  let ?w = "one_file (ustr ''in'') ?c"
  have rl: "readlines ?c = [ustr '' a  -- c'' @ [LF], ustr ''ACL'' @ [LF], [LF], ustr ''b '']"
    by (simp add: readlines_def eval_defs)
  have v: "clean_lines (readlines ?c) = Inr [ustr '' a'', ustr ''b'']"
    unfolding rl by (simp add: run_defs)
  have j: "join [LF] [ustr '' a'', ustr ''b''] = ustr '' a'' @ [LF] @ ustr ''b''" by simp
  have e: "print_error ?w (cleaning_message (ustr ''in'') (ustr ''out'')) = None"
    "0 \<notin> set (ustr ''in'')" "files ?w (ustr ''in'') = Inr ?c"
    "0 \<notin> set (ustr ''out'')"
    "write_error ?w (ustr ''out'') (join [LF] [ustr '' a'', ustr ''b'']) = None"
    "print_error ?w (saved_message (ustr ''out'')) = None"
    "print_error ?w (cleaning_message (ustr ''out'') (ustr ''out2'')) = None"
    "0 \<notin> set (ustr ''out2'')"
    "write_error ?w (ustr ''out2'') (join [LF] [ustr '' a'', ustr ''b'']) = None"
    "print_error ?w (saved_message (ustr ''out2'')) = None"
    by (simp_all add: world_defs)
  from clean_idempotent[of ?c ?w "ustr ''in''" "ustr ''out''" "ustr ''out2''"] v e
  have "clean_text ?c = Inr (join [LF] [ustr '' a'', ustr ''b''])"
    and "clean_text (join [LF] [ustr '' a'', ustr ''b''])
         = Inr (join [LF] [ustr '' a'', ustr ''b''])"
    and "\<exists>w' w''. clean_sql (ustr ''in'') (ustr ''out'') ?w = Inr w' \<and>
      clean_sql (ustr ''out'') (ustr ''out2'') w' = Inr w'' \<and>
      files w'' (ustr ''out2'') = files w' (ustr ''out'')"
    by auto
  then show ?thesis unfolding j by simp
qed

end
